theory Spec2Isabelle
  imports Main "HOL-Library.Sublist" "HOL-Library.AList"
begin

section \<open>The web crawler of \<^verbatim>\<open>src/main.py\<close>\<close>

text \<open>
  The class \<^verbatim>\<open>WebCrawler\<close> keeps two fields, \<^verbatim>\<open>index\<close> (a dictionary from URL to
  page text, iterated in insertion order) and \<^verbatim>\<open>visited\<close> (a set of URLs). The method
  \<^verbatim>\<open>crawl\<close> fetches a page, stores its text and recurses into the links of the page;
  \<^verbatim>\<open>search\<close> scans the dictionary for a keyword.

  Strings are lists of characters.
\<close>

subsection \<open>Strings: \<^verbatim>\<open>str.lower\<close> and the operator \<^verbatim>\<open>in\<close>\<close>

text \<open>
  \<^verbatim>\<open>str.lower\<close> is a builtin of the language, not code of the repository, and on text
  beyond ASCII it is neither a map of single characters nor the same in every context.
  The source calls it in two places. In \<^verbatim>\<open>search\<close> both operands are arbitrary, and
  the builtin is a parameter of the model. In \<^verbatim>\<open>crawl\<close> the lowered header is only
  tested for the ASCII word \<^verbatim>\<open>html\<close>; there the model uses \<open>ascii_lower\<close>, the map of
  the letters A to Z onto a to z, which is what the builtin does on the letters that
  can make this test succeed.
\<close>

definition ascii_lower_char :: "char \<Rightarrow> char" where
  "ascii_lower_char c =
     (let n = (of_char c :: nat) in if 65 \<le> n \<and> n \<le> 90 then char_of (n + 32) else c)"

definition ascii_lower :: "string \<Rightarrow> string" where
  "ascii_lower s = map ascii_lower_char s"

text \<open>
  The value of a header is a string of characters below 256 (the HTTP library decodes
  headers as Latin-1), which is what the type \<open>char\<close> holds. On these characters
  \<^verbatim>\<open>str.lower\<close> is the map \<open>latin1_lower\<close> of single characters: the letters A to Z and the
  accented capitals 192 to 222, but for the multiplication sign 215, go 32 places on,
  and every other character stays.
\<close>

definition latin1_lower_char :: "char \<Rightarrow> char" where
  "latin1_lower_char c =
     (let n = (of_char c :: nat) in
      if (65 \<le> n \<and> n \<le> 90) \<or> (192 \<le> n \<and> n \<le> 214) \<or> (216 \<le> n \<and> n \<le> 222)
      then char_of (n + 32) else c)"

definition latin1_lower :: "string \<Rightarrow> string" where
  "latin1_lower s = map latin1_lower_char s"

text \<open>\<^verbatim>\<open>k in t\<close> on strings: \<^verbatim>\<open>k\<close> starts at some position of \<^verbatim>\<open>t\<close>.\<close>

fun str_in :: "'c list \<Rightarrow> 'c list \<Rightarrow> bool" where
  "str_in k [] = (k = [])"
| "str_in k (c # cs) = (prefix k (c # cs) \<or> str_in k cs)"

subsection \<open>The collaborators of the crawler\<close>

text \<open>
  \<^verbatim>\<open>requests.get\<close>, \<^verbatim>\<open>BeautifulSoup\<close>, \<^verbatim>\<open>urlparse\<close> and \<^verbatim>\<open>urljoin\<close> are libraries,
  not code of the repository. They are parameters of the model, collected in a record.
  Each of them can raise an exception, which is the value \<open>None\<close>.

  A response carries what \<^verbatim>\<open>crawl\<close> reads of it: the value of
  \<^verbatim>\<open>headers.get('Content-Type')\<close> (absent when the header is) and \<^verbatim>\<open>text\<close>.
  A parsed page carries \<^verbatim>\<open>get_text()\<close> and, for each element of \<^verbatim>\<open>find_all('a')\<close> in
  document order, the value of \<^verbatim>\<open>link.get('href')\<close> (\<open>None\<close> for an anchor without
  the attribute).
\<close>

record response =
  content_type :: "string option"
  body :: string

record soup =
  get_text :: string
  anchors :: "string option list"

record env =
  http_get :: "string \<Rightarrow> response option"
  html_parse :: "string \<Rightarrow> soup option"
  netloc :: "string \<Rightarrow> string option"
  urljoin :: "string \<Rightarrow> string \<Rightarrow> string option"

subsection \<open>The state of a \<^verbatim>\<open>WebCrawler\<close>\<close>

text \<open>
  The field \<open>trace\<close> is not a field of the class. It records, most recent first, what
  a run does: every invocation of \<^verbatim>\<open>crawl\<close> with its two arguments, every
  \<^verbatim>\<open>visited.add\<close>, every call of \<^verbatim>\<open>requests.get\<close>, and the two logging calls.
\<close>

datatype event =
    Call string "string option"
  | Add string
  | Get string
  | Warn string
  | Err string

record crawler =
  index :: "(string \<times> string) list"
  visited :: "string set"
  trace :: "event list"

definition init :: crawler where
  "init = \<lparr>index = [], visited = {}, trace = []\<rparr>"

definition emit :: "event \<Rightarrow> crawler \<Rightarrow> crawler" where
  "emit e st = st\<lparr>trace := e # trace st\<rparr>"

subsection \<open>\<^verbatim>\<open>WebCrawler.crawl\<close>\<close>

text \<open>The content type test of lines 23 and 24.\<close>

definition is_html :: "response \<Rightarrow> bool" where
  "is_html r =
     str_in ''html'' (ascii_lower (case content_type r of None \<Rightarrow> [] | Some c \<Rightarrow> c))"

text \<open>\<^verbatim>\<open>base_url or url\<close>: the first operand unless it is \<^verbatim>\<open>None\<close> or the empty string.\<close>

definition base_or :: "string option \<Rightarrow> string \<Rightarrow> string" where
  "base_or base_url url =
     (case base_url of None \<Rightarrow> url | Some b \<Rightarrow> if b = [] then url else b)"

text \<open>
  Lines 32 to 41, the treatment of one anchor: the anchor is skipped, or an exception
  leaves the loop, or \<^verbatim>\<open>crawl\<close> is called on a URL.
\<close>

datatype link = Raises | Dropped | Follow string

definition resolve :: "env \<Rightarrow> string \<Rightarrow> string option \<Rightarrow> link" where
  "resolve E base h =
     (case h of
        None \<Rightarrow> Dropped
      | Some href \<Rightarrow>
          if href = [] then Dropped
          else
            (case netloc E href of
               None \<Rightarrow> Raises
             | Some n \<Rightarrow>
                 (case (if n \<noteq> [] then urljoin E base href else Some href) of
                    None \<Rightarrow> Raises
                  | Some href' \<Rightarrow>
                      (case netloc E base of
                         None \<Rightarrow> Raises
                       | Some nb \<Rightarrow>
                           (case netloc E href' of
                              None \<Rightarrow> Raises
                            | Some nh \<Rightarrow> if nh = nb then Follow href' else Dropped)))))"

text \<open>
  \<open>enter\<close> is the state in which \<^verbatim>\<open>requests.get\<close> is called (line 21): the
  invocation has passed the test of line 16 and has run \<^verbatim>\<open>visited.add\<close> (line 18).
  \<open>store\<close> is the assignment \<^verbatim>\<open>self.index[url] = ...\<close> of line 29: a dictionary keeps a
  key that it has at its place and puts a new key last.
\<close>

definition enter :: "string \<Rightarrow> string option \<Rightarrow> crawler \<Rightarrow> crawler" where
  "enter url base_url st =
     emit (Get url) (emit (Add url)
       ((emit (Call url base_url) st)\<lparr>visited := insert url (visited st)\<rparr>))"

definition store :: "string \<Rightarrow> string \<Rightarrow> crawler \<Rightarrow> crawler" where
  "store url text st = st\<lparr>index := AList.update url text (index st)\<rparr>"

text \<open>
  The recursion of \<^verbatim>\<open>crawl\<close> need not end (a site can generate in-scope links for
  ever), so the model takes the number of nested invocations it may use; \<open>None\<close> means
  that this number did not suffice. \<open>links\<close> is the loop of line 31 over the anchors
  that remain, inside the invocation for \<open>url\<close> whose base is \<open>base\<close>.
\<close>

fun crawl :: "nat \<Rightarrow> env \<Rightarrow> string \<Rightarrow> string option \<Rightarrow> crawler \<Rightarrow> crawler option"
and links :: "nat \<Rightarrow> env \<Rightarrow> string \<Rightarrow> string \<Rightarrow> string option list \<Rightarrow> crawler \<Rightarrow> crawler option"
where
  "crawl 0 E url base_url st = None"
| "crawl (Suc n) E url base_url st =
     (if url \<in> visited st then Some (emit (Call url base_url) st)
      else
        (case http_get E url of
           None \<Rightarrow> Some (emit (Err url) (enter url base_url st))
         | Some r \<Rightarrow>
             if \<not> is_html r then Some (emit (Warn url) (enter url base_url st))
             else
               (case html_parse E (body r) of
                  None \<Rightarrow> Some (emit (Err url) (enter url base_url st))
                | Some s \<Rightarrow>
                    links n E url (base_or base_url url) (anchors s)
                      (store url (get_text s) (enter url base_url st)))))"
| "links n E url base [] st = Some st"
| "links n E url base (h # hs) st =
     (case resolve E base h of
        Raises \<Rightarrow> Some (emit (Err url) st)
      | Dropped \<Rightarrow> links n E url base hs st
      | Follow u \<Rightarrow>
          (case crawl n E u (Some base) st of
             None \<Rightarrow> None
           | Some st' \<Rightarrow> links n E url base hs st'))"

subsection \<open>\<^verbatim>\<open>WebCrawler.search\<close>\<close>

text \<open>
  The first argument is the builtin \<^verbatim>\<open>str.lower\<close>. Keyword and texts are lists of
  whatever the characters of a string are (\<open>char\<close> for the index of a crawler above,
  code points as numbers for text beyond ASCII).
\<close>

definition search ::
  "('c list \<Rightarrow> 'c list) \<Rightarrow> 'c list \<Rightarrow> ('u \<times> 'c list) list \<Rightarrow> 'u list" where
  "search str_lower keyword idx =
     foldl (\<lambda>results (url, text). if str_in (str_lower keyword) (str_lower text)
                                    then results @ [url] else results) [] idx"


subsection \<open>What a trace contains\<close>

text \<open>The URLs of the \<^verbatim>\<open>visited.add\<close> events and of the \<^verbatim>\<open>requests.get\<close> events of a
  trace, most recent first.\<close>

fun adds :: "event list \<Rightarrow> string list" where
  "adds [] = []"
| "adds (Add u # es) = u # adds es"
| "adds (e # es) = adds es"

fun gets :: "event list \<Rightarrow> string list" where
  "gets [] = []"
| "gets (Get u # es) = u # gets es"
| "gets (e # es) = gets es"

text \<open>
  \<open>ordered\<close>: every \<^verbatim>\<open>requests.get\<close> of a trace has the \<^verbatim>\<open>visited.add\<close> of the same URL
  before it (later in the list). \<open>sound\<close> collects what holds of every state that a run
  reaches: the trace and the two fields agree.
\<close>

fun ordered :: "event list \<Rightarrow> bool" where
  "ordered [] = True"
| "ordered (Get u # es) = (u \<in> set (adds es) \<and> ordered es)"
| "ordered (e # es) = ordered es"

definition sound :: "crawler \<Rightarrow> bool" where
  "sound st =
     (distinct (adds (trace st)) \<and> distinct (gets (trace st))
      \<and> set (adds (trace st)) = visited st
      \<and> set (gets (trace st)) \<subseteq> visited st
      \<and> fst ` set (index st) \<subseteq> set (gets (trace st))
      \<and> ordered (trace st))"

text \<open>\<open>fetched_html\<close>: every key of the index is a URL whose response is HTML.\<close>

definition fetched_html :: "env \<Rightarrow> crawler \<Rightarrow> bool" where
  "fetched_html E st =
     (\<forall>u \<in> fst ` set (index st). \<exists>r. http_get E u = Some r \<and> is_html r)"

text \<open>
  \<open>scoped\<close>: every URL of \<open>visited\<close> is the seed or has the network location of the
  seed. \<open>based\<close>: in every invocation of the trace, \<^verbatim>\<open>base_url or url\<close> has the network
  location of the seed. \<open>extends\<close>: the trace of the second state is the trace of the first with events
  put before it, and every invocation among these has the seed as its second argument.
\<close>

definition scoped :: "env \<Rightarrow> string \<Rightarrow> crawler \<Rightarrow> bool" where
  "scoped E seed st = (\<forall>x \<in> visited st. x = seed \<or> netloc E x = netloc E seed)"

definition based :: "env \<Rightarrow> string \<Rightarrow> crawler \<Rightarrow> bool" where
  "based E seed st =
     (\<forall>v b. Call v b \<in> set (trace st) \<longrightarrow> netloc E (base_or b v) = netloc E seed)"

definition extends :: "string \<Rightarrow> crawler \<Rightarrow> crawler \<Rightarrow> bool" where
  "extends seed st st' =
     (\<exists>t. trace st' = t @ trace st \<and> (\<forall>u b. Call u b \<in> set t \<longrightarrow> b = Some seed))"

subsection \<open>A model of \<^verbatim>\<open>urllib.parse\<close> for the examples\<close>

text \<open>
  The examples need the two library functions on concrete URLs. \<open>py_netloc\<close> follows
  \<^verbatim>\<open>urlsplit\<close>: a scheme is a letter followed by letters, digits, \<^verbatim>\<open>+\<close>, \<^verbatim>\<open>-\<close> or \<^verbatim>\<open>.\<close> up to
  the first colon; if what follows the scheme starts with two slashes, the network
  location runs from there to the first of \<^verbatim>\<open>/\<close>, \<^verbatim>\<open>?\<close> and \<^verbatim>\<open>#\<close>, and it is empty otherwise.
  (Stripping of control characters and the checks of bracketed hosts are left out: no
  URL of the examples has them, but for the one of \<open>bracket_site\<close> below.)

  \<^verbatim>\<open>urljoin\<close> is called by \<^verbatim>\<open>crawl\<close> only on an href with a network location. On such
  an href that is written in normal form, as all hrefs of the examples are, it returns
  the href: at once when its scheme differs from the scheme of the base, and after
  splitting and reassembling it otherwise.
\<close>

definition is_alpha :: "char \<Rightarrow> bool" where
  "is_alpha c =
     (let n = (of_char c :: nat) in (97 \<le> n \<and> n \<le> 122) \<or> (65 \<le> n \<and> n \<le> 90))"

definition scheme_char :: "char \<Rightarrow> bool" where
  "scheme_char c =
     (let n = (of_char c :: nat) in is_alpha c \<or> (48 \<le> n \<and> n \<le> 57) \<or> c \<in> set ''+-.'')"

definition after_scheme :: "string \<Rightarrow> string" where
  "after_scheme url =
     (let s = takeWhile (\<lambda>c. c \<noteq> CHR '':'') url in
      if s \<noteq> [] \<and> length s < length url \<and> is_alpha (hd s) \<and> list_all scheme_char s
      then drop (Suc (length s)) url else url)"

definition py_netloc :: "string \<Rightarrow> string" where
  "py_netloc url =
     (let r = after_scheme url in
      if take 2 r = ''//'' then takeWhile (\<lambda>c. c \<notin> set ''/?#'') (drop 2 r) else [])"

text \<open>
  \<^verbatim>\<open>urlsplit\<close> raises \<^verbatim>\<open>ValueError\<close> (\<^verbatim>\<open>Invalid IPv6 URL\<close>) when the network location has one
  of the two square brackets and not the other.
\<close>

definition checked_netloc :: "string \<Rightarrow> string option" where
  "checked_netloc url =
     (let n = py_netloc url in
      if (CHR ''['' \<in> set n \<and> CHR '']'' \<notin> set n) \<or> (CHR '']'' \<in> set n \<and> CHR ''['' \<notin> set n)
      then None else Some n)"

subsection \<open>Sites for the examples\<close>

text \<open>
  A site is given by two tables: the response of each URL that answers (a request to
  any other URL raises), and what the parser returns for each body (any other body
  has no anchors).
\<close>

definition html :: "string \<Rightarrow> response" where
  "html b = \<lparr>content_type = Some ''text/html; charset=UTF-8'', body = b\<rparr>"

definition site :: "(string \<times> response) list \<Rightarrow> (string \<times> soup) list \<Rightarrow> env" where
  "site responses parsed =
     \<lparr>http_get = map_of responses,
      html_parse = (\<lambda>b. case map_of parsed b of
                           None \<Rightarrow> Some \<lparr>get_text = b, anchors = []\<rparr>
                         | Some s \<Rightarrow> Some s),
      netloc = (\<lambda>u. Some (py_netloc u)),
      urljoin = (\<lambda>base href. Some href)\<rparr>"

text \<open>The page of \<^verbatim>\<open>test_crawl_success\<close>: a relative link and a link to another host.\<close>

definition about_site :: env where
  "about_site =
     site [(''https://example.com'', html ''home''),
           (''https://example.com/about'', html ''about''),
           (''https://external.com'', html ''elsewhere'')]
          [(''home'', \<lparr>get_text = ''Welcome!'',
                       anchors = [Some ''/about'', Some ''https://external.com'']\<rparr>)]"

text \<open>The page of \<^verbatim>\<open>test_malformed_url\<close>: a link with a misspelt scheme, for which
  \<^verbatim>\<open>requests.get\<close> raises, followed by a good link.\<close>

definition malformed_site :: env where
  "malformed_site =
     site [(''https://example.com'', html ''home''),
           (''https://example.com/next'', html ''next'')]
          [(''home'', \<lparr>get_text = ''Broken Link'',
                       anchors = [Some ''htp://example.com'',
                                  Some ''https://example.com/next'']\<rparr>)]"

text \<open>The page of \<^verbatim>\<open>test_infinite_loop\<close>: a link to the page itself.\<close>

definition loop_site :: env where
  "loop_site =
     site [(''https://example.com'', html ''home'')]
          [(''home'', \<lparr>get_text = ''Go to Example'',
                       anchors = [Some ''https://example.com'', None, Some []]\<rparr>)]"

text \<open>The response of \<^verbatim>\<open>test_non_html_content\<close>, and a response without the header.\<close>

definition pdf_site :: env where
  "pdf_site =
     site [(''https://example.com'',
            \<lparr>content_type = Some ''application/pdf'', body = ''%PDF''\<rparr>),
           (''https://example.org'',
            \<lparr>content_type = None, body = ''home''\<rparr>)]
          [(''home'', \<lparr>get_text = ''Welcome!'',
                       anchors = [Some ''https://example.org/a'']\<rparr>)]"

text \<open>
  Two pages that link to each other: the first also links to another host, the second
  also to itself, to a page of the host that does not answer and to a third page, three
  hops from the seed, which links to another host and back to the seed.
\<close>

definition ring_site :: env where
  "ring_site =
     site [(''https://example.com'', html ''home''),
           (''https://example.com/b'', html ''second''),
           (''https://example.com/c'', html ''third''),
           (''https://other.org'', html ''elsewhere''),
           (''https://other.org/x'', html ''elsewhere'')]
          [(''home'', \<lparr>get_text = ''first page'',
                       anchors = [Some ''https://example.com/b'',
                                  Some ''https://other.org'']\<rparr>),
           (''second'', \<lparr>get_text = ''second page'',
                         anchors = [Some ''https://example.com'',
                                    Some ''https://example.com/b'',
                                    Some ''https://example.com/gone'',
                                    Some ''https://example.com/c'']\<rparr>),
           (''third'', \<lparr>get_text = ''third page'',
                        anchors = [Some ''https://other.org/x'',
                                   Some ''https://example.com'']\<rparr>)]"

text \<open>
  A page whose first link has an opening bracket without the closing one, so that
  \<^verbatim>\<open>urlparse\<close> raises on it, and whose second link is a page of the same host.
\<close>

definition bracket_site :: env where
  "bracket_site =
     (site [(''https://example.com'', html ''home''),
            (''https://example.com/next'', html ''next'')]
           [(''home'', \<lparr>get_text = ''Welcome!'',
                        anchors = [Some ''http://[example.com/x'',
                                   Some ''https://example.com/next'']\<rparr>)])
       \<lparr>netloc := checked_netloc\<rparr>"

text \<open>The two pages that link to each other, with a parser that raises on every body.\<close>

definition deaf_site :: env where
  "deaf_site = ring_site\<lparr>html_parse := (\<lambda>b. None)\<rparr>"

text \<open>The states in which the runs on these sites end.\<close>

definition ring_final :: crawler where
  "ring_final =
     \<lparr>index = [(''https://example.com'', ''first page''),
               (''https://example.com/b'', ''second page''),
               (''https://example.com/c'', ''third page'')],
      visited = {''https://example.com/c'', ''https://example.com/gone'',
                 ''https://example.com/b'', ''https://example.com''},
      trace =
        [Call ''https://example.com'' (Some ''https://example.com''),
         Get ''https://example.com/c'', Add ''https://example.com/c'',
         Call ''https://example.com/c'' (Some ''https://example.com''),
         Err ''https://example.com/gone'', Get ''https://example.com/gone'',
         Add ''https://example.com/gone'',
         Call ''https://example.com/gone'' (Some ''https://example.com''),
         Call ''https://example.com/b'' (Some ''https://example.com''),
         Call ''https://example.com'' (Some ''https://example.com''),
         Get ''https://example.com/b'', Add ''https://example.com/b'',
         Call ''https://example.com/b'' (Some ''https://example.com''),
         Get ''https://example.com'', Add ''https://example.com'',
         Call ''https://example.com'' None]\<rparr>"

definition pdf_final :: crawler where
  "pdf_final =
     \<lparr>index = [], visited = {''https://example.com''},
      trace = [Warn ''https://example.com'', Get ''https://example.com'',
               Add ''https://example.com'', Call ''https://example.com'' None]\<rparr>"

definition about_final :: crawler where
  "about_final =
     \<lparr>index = [(''https://example.com'', ''Welcome!'')],
      visited = {''https://example.com''},
      trace = [Get ''https://example.com'', Add ''https://example.com'',
               Call ''https://example.com'' None]\<rparr>"

definition malformed_final :: crawler where
  "malformed_final =
     \<lparr>index = [(''https://example.com'', ''Broken Link''),
               (''https://example.com/next'', ''next'')],
      visited = {''https://example.com/next'', ''htp://example.com'',
                 ''https://example.com''},
      trace =
        [Get ''https://example.com/next'', Add ''https://example.com/next'',
         Call ''https://example.com/next'' (Some ''https://example.com''),
         Err ''htp://example.com'', Get ''htp://example.com'',
         Add ''htp://example.com'',
         Call ''htp://example.com'' (Some ''https://example.com''),
         Get ''https://example.com'', Add ''https://example.com'',
         Call ''https://example.com'' None]\<rparr>"

definition loop_final :: crawler where
  "loop_final =
     \<lparr>index = [(''https://example.com'', ''Go to Example'')],
      visited = {''https://example.com''},
      trace =
        [Call ''https://example.com'' (Some ''https://example.com''),
         Get ''https://example.com'', Add ''https://example.com'',
         Call ''https://example.com'' None]\<rparr>"

definition bracket_final :: crawler where
  "bracket_final =
     \<lparr>index = [(''https://example.com'', ''Welcome!'')],
      visited = {''https://example.com''},
      trace = [Err ''https://example.com'', Get ''https://example.com'',
               Add ''https://example.com'', Call ''https://example.com'' None]\<rparr>"

subsection \<open>A model of \<^verbatim>\<open>str.lower\<close> for the examples\<close>

text \<open>
  \<open>py_lower\<close> is \<^verbatim>\<open>str.lower\<close> on strings, given as lists of code points, that are made
  of ASCII letters, spaces and the letters of the Greek alphabet (capitals 913 to 929
  and 931 to 937, small letters 945 to 969). Every capital goes to the small letter 32
  places on, but for the capital sigma (931): it goes to the final small sigma (962)
  when a letter stands before it and no letter after it, and to the small sigma (963)
  otherwise. (The other characters that the builtin skips when it looks for these
  letters do not occur in such strings.)
\<close>

definition cased :: "nat \<Rightarrow> bool" where
  "cased c =
     ((65 \<le> c \<and> c \<le> 90) \<or> (97 \<le> c \<and> c \<le> 122)
      \<or> (913 \<le> c \<and> c \<le> 929) \<or> (931 \<le> c \<and> c \<le> 937)
      \<or> (945 \<le> c \<and> c \<le> 969))"

definition lower_point :: "nat \<Rightarrow> nat" where
  "lower_point c =
     (if (65 \<le> c \<and> c \<le> 90) \<or> (913 \<le> c \<and> c \<le> 929) \<or> (931 \<le> c \<and> c \<le> 937)
      then c + 32 else c)"

fun lower_from :: "nat option \<Rightarrow> nat list \<Rightarrow> nat list" where
  "lower_from before [] = []"
| "lower_from before (c # cs) =
     (if c = 931
      then (if (case before of None \<Rightarrow> False | Some p \<Rightarrow> cased p)
               \<and> (case cs of [] \<Rightarrow> True | d # ds \<Rightarrow> \<not> cased d)
            then 962 else 963)
      else lower_point c) # lower_from (Some c) cs"

definition py_lower :: "nat list \<Rightarrow> nat list" where
  "py_lower s = lower_from None s"

subsection \<open>An index for the examples\<close>

definition pages :: "(string \<times> string) list" where
  "pages = [(''page1'', ''This has the keyword''),
            (''page2'', ''No Keyword here, KEYWORD there''),
            (''page3'', ''nothing'')]"

section \<open>Properties of \<^verbatim>\<open>search\<close>\<close>

lemma str_in_sublist: "str_in k t = sublist k t"
  by (induction t) (simp_all add: sublist_Cons_right)

lemma search_foldl:
  "foldl (\<lambda>results (url, text). if str_in k (L text) then results @ [url] else results)
     acc idx
   = acc @ map fst (filter (\<lambda>(u, t). sublist k (L t)) idx)"
  by (induction idx arbitrary: acc) (auto simp: str_in_sublist)

lemma search_filter:
  "search L k idx = map fst (filter (\<lambda>(u, t). sublist (L k) (L t)) idx)"
  by (simp add: search_def search_foldl)

text \<open>
  C4, as amended. Let \<open>L\<close> be \<^verbatim>\<open>str.lower\<close> (any function that sends the empty string
  to itself). For a dictionary (an association list with distinct keys) and a keyword
  \<open>k\<close>, \<open>search\<close> returns the keys \<open>u\<close> for which \<open>L k\<close> is a contiguous sublist of \<open>L\<close> of the
  text of \<open>u\<close>; they come in the order of the dictionary and none comes twice. The empty
  keyword returns every key, and a keyword whose lowered form is in no lowered text
  returns the empty list.
\<close>

theorem search_lowered_substring:
  "distinct (map fst idx) \<Longrightarrow> L [] = [] \<Longrightarrow>
     search L k idx = map fst (filter (\<lambda>(u, t). sublist (L k) (L t)) idx)
   \<and> distinct (search L k idx)
   \<and> search L [] idx = map fst idx
   \<and> ((\<forall>(u, t) \<in> set idx. \<not> sublist (L k) (L t)) \<longrightarrow> search L k idx = [])"
proof (intro conjI impI)
  assume d: "distinct (map fst idx)" and e: "L [] = []"
  show "search L k idx = map fst (filter (\<lambda>(u, t). sublist (L k) (L t)) idx)"
    by (rule search_filter)
  show "distinct (search L k idx)"
    using d by (simp add: search_filter distinct_map_filter)
  show "search L [] idx = map fst idx"
    using e by (simp add: search_filter)
  show "search L k idx = []" if "\<forall>(u, t) \<in> set idx. \<not> sublist (L k) (L t)"
    using that by (auto simp: search_filter filter_empty_conv)
qed

theorem search_lowered_substring_witness:
  "distinct (map fst pages) \<and> ascii_lower [] = []
   \<and> search ascii_lower ''KEY'' pages = [''page1'', ''page2'']
   \<and> distinct (search ascii_lower ''KEY'' pages)
   \<and> search ascii_lower [] pages = [''page1'', ''page2'', ''page3'']
   \<and> search ascii_lower ''zebra'' pages = []"
proof -
  have d: "distinct (map fst pages)"
    by (simp add: pages_def)
  have e: "ascii_lower [] = []"
    by (simp add: ascii_lower_def)
  have none: "\<forall>(u, t) \<in> set pages. \<not> sublist (ascii_lower ''zebra'') (ascii_lower t)"
    by code_simp
  have key: "search ascii_lower ''KEY'' pages = [''page1'', ''page2'']"
    by code_simp
  from search_lowered_substring [where idx = pages and L = ascii_lower and k = "''KEY''"]
    search_lowered_substring [where idx = pages and L = ascii_lower and k = "''zebra''"]
    d e none key
  show ?thesis
    by (simp add: pages_def)
qed

text \<open>
  C4 as it is stated fails beyond ASCII: the text \<^verbatim>\<open>O D O S\<close> in Greek capitals (code
  points 927, 916, 927, 931) contains the keyword capital sigma (931) as it stands, and
  \<open>search\<close> does not return its key, because the sigma at the end of the text is lowered
  to the final sigma and the keyword to the other one.
\<close>

theorem search_verbatim_counterexample:
  "sublist [931] [927, 916, 927, 931 :: nat]
   \<and> py_lower [931] = [963]
   \<and> py_lower [927, 916, 927, 931] = [959, 948, 959, 962]
   \<and> search py_lower [931] [(''page'', [927, 916, 927, 931])] = []"
  by code_simp

section \<open>Properties of \<^verbatim>\<open>crawl\<close>\<close>

subsection \<open>The steps of an invocation\<close>

lemma emit_simps:
  "visited (emit e st) = visited st" "index (emit e st) = index st"
  "trace (emit e st) = e # trace st"
  by (simp_all add: emit_def)

lemma enter_simps:
  "visited (enter u b st) = insert u (visited st)" "index (enter u b st) = index st"
  "trace (enter u b st) = Get u # Add u # Call u b # trace st"
  by (simp_all add: enter_def emit_def)

lemma store_simps:
  "visited (store u t st) = visited st"
  "index (store u t st) = AList.update u t (index st)"
  "trace (store u t st) = trace st"
  by (simp_all add: store_def)

lemmas state_simps = emit_simps enter_simps store_simps

lemma adds_iff: "u \<in> set (adds t) \<longleftrightarrow> Add u \<in> set t"
  by (induction t rule: adds.induct) auto

lemma gets_iff: "u \<in> set (gets t) \<longleftrightarrow> Get u \<in> set t"
  by (induction t rule: gets.induct) auto

subsection \<open>The runs of the examples\<close>

lemma ring_run: "crawl 4 ring_site ''https://example.com'' None init = Some ring_final"
  by code_simp

lemma pdf_run: "crawl 1 pdf_site ''https://example.com'' None init = Some pdf_final"
  by code_simp

subsection \<open>Trace and fields agree\<close>

lemma sound_init: "sound init"
  by (simp add: sound_def init_def)

lemma sound_enter: "sound st \<Longrightarrow> u \<notin> visited st \<Longrightarrow> sound (enter u b st)"
  by (auto simp: sound_def state_simps)

lemma sound_store: "sound st \<Longrightarrow> u \<in> set (gets (trace st)) \<Longrightarrow> sound (store u t st)"
  by (auto simp: sound_def state_simps AList.dom_update)

lemma sound_emit: "e \<in> {Call u b, Warn u, Err u} \<Longrightarrow> sound (emit e st) = sound st"
  by (auto simp: sound_def state_simps)

lemma crawl_sound: "crawl n E u b st = Some st' \<Longrightarrow> sound st \<Longrightarrow> sound st'"
  and links_sound: "links n E url base hs st = Some st' \<Longrightarrow> sound st \<Longrightarrow> sound st'"
proof (induction n E u b st and n E url base hs st arbitrary: st' and st'
    rule: crawl_links.induct)
  case (1 E url base_url st)
  then show ?case by simp
next
  case (2 n E url base_url st)
  have s: "sound (store url t (enter url base_url st))" if "url \<notin> visited st" for t
    using that "2.prems"(2) by (intro sound_store sound_enter) (simp_all add: state_simps)
  from 2 s show ?case
    by (auto simp: sound_emit sound_enter split: if_splits option.splits)
next
  case (3 n E url base st)
  then show ?case by simp
next
  case (4 n E url base h hs st)
  then show ?case
    by (auto simp: sound_emit split: link.splits option.splits)
qed

lemma ordered_split: "ordered (a @ Get u # b) \<Longrightarrow> Add u \<in> set b"
proof (induction a)
  case Nil
  then show ?case by (simp add: adds_iff)
next
  case (Cons e a)
  then show ?case by (cases e) simp_all
qed

lemma crawl_visited: "crawl n E u b st = Some st' \<Longrightarrow> insert u (visited st) \<subseteq> visited st'"
  and links_visited: "links n E url base hs st = Some st' \<Longrightarrow> visited st \<subseteq> visited st'"
proof (induction n E u b st and n E url base hs st arbitrary: st' and st'
    rule: crawl_links.induct)
  case (2 n E url base_url st)
  then show ?case
    by (fastforce simp: state_simps split: if_splits option.splits)
next
  case (4 n E url base h hs st)
  then show ?case
    by (fastforce simp: state_simps split: link.splits option.splits)
qed simp_all

text \<open>
  C2. In a run of \<open>crawl\<close> from the empty crawler, no URL is added to \<open>visited\<close> twice,
  the URLs added are the set \<open>visited\<close>, no URL is requested twice, and wherever the
  trace has a request of a URL, the addition of that URL to \<open>visited\<close> is in the part of
  the trace before it (the trace is most recent first, so that part is the rest of the
  list).
\<close>

theorem visited_once_before_fetch:
  "crawl n E seed None init = Some st \<Longrightarrow>
     distinct (adds (trace st)) \<and> set (adds (trace st)) = visited st
   \<and> distinct (gets (trace st))
   \<and> (\<forall>a u b. trace st = a @ Get u # b \<longrightarrow> Add u \<in> set b)"
proof -
  assume "crawl n E seed None init = Some st"
  then have s: "sound st"
    by (rule crawl_sound) (rule sound_init)
  then have "ordered (trace st)"
    by (simp add: sound_def)
  then have "\<forall>a u b. trace st = a @ Get u # b \<longrightarrow> Add u \<in> set b"
    using ordered_split by metis
  with s show ?thesis
    by (simp add: sound_def)
qed

theorem visited_once_before_fetch_witness:
  "crawl 4 ring_site ''https://example.com'' None init = Some ring_final
   \<and> distinct (adds (trace ring_final))
   \<and> set (adds (trace ring_final)) = visited ring_final
   \<and> distinct (gets (trace ring_final))
   \<and> Add ''https://example.com/c'' \<in> set (drop 2 (trace ring_final))"
proof -
  have "trace ring_final
    = take 1 (trace ring_final) @ Get ''https://example.com/c'' # drop 2 (trace ring_final)"
    by (simp add: ring_final_def)
  with visited_once_before_fetch [OF ring_run] ring_run show ?thesis
    by blast
qed

subsection \<open>The keys of the index\<close>

lemma fetched_html_emit: "fetched_html E (emit e st) = fetched_html E st"
  by (simp add: fetched_html_def state_simps)

lemma fetched_html_enter: "fetched_html E (enter u b st) = fetched_html E st"
  by (simp add: fetched_html_def state_simps)

lemma fetched_html_store:
  "http_get E u = Some r \<Longrightarrow> is_html r \<Longrightarrow>
   fetched_html E (store u t st) = fetched_html E st"
  by (auto simp: fetched_html_def state_simps AList.dom_update)

lemma crawl_fetched_html:
  "crawl n E u b st = Some st' \<Longrightarrow> fetched_html E st \<Longrightarrow> fetched_html E st'"
  and links_fetched_html:
  "links n E url base hs st = Some st' \<Longrightarrow> fetched_html E st \<Longrightarrow> fetched_html E st'"
proof (induction n E u b st and n E url base hs st arbitrary: st' and st'
    rule: crawl_links.induct)
  case (2 n E url base_url st)
  then show ?case
    by (auto simp: fetched_html_emit fetched_html_enter fetched_html_store
        split: if_splits option.splits)
next
  case (4 n E url base h hs st)
  then show ?case
    by (auto simp: fetched_html_emit split: link.splits option.splits)
qed simp_all

text \<open>
  C3. After a run of \<open>crawl\<close> from the empty crawler, every key of the index is in
  \<open>visited\<close>, was requested, and has a response whose content type is HTML; so a URL
  whose request raises or whose response is not HTML is not a key. The seed is in
  \<open>visited\<close> whatever its response was.
\<close>

theorem index_keys_fetched_html:
  "crawl n E seed None init = Some st \<Longrightarrow>
     seed \<in> visited st
   \<and> (\<forall>u \<in> fst ` set (index st).
         u \<in> visited st \<and> u \<in> set (gets (trace st))
         \<and> (\<exists>r. http_get E u = Some r \<and> is_html r))
   \<and> (\<forall>u. http_get E u = None \<or> (\<exists>r. http_get E u = Some r \<and> \<not> is_html r)
          \<longrightarrow> u \<notin> fst ` set (index st))"
proof -
  assume run: "crawl n E seed None init = Some st"
  from crawl_visited [OF run] have v: "seed \<in> visited st"
    by simp
  from crawl_sound [OF run sound_init]
  have k: "fst ` set (index st) \<subseteq> set (gets (trace st))"
    and g: "set (gets (trace st)) \<subseteq> visited st"
    by (simp_all add: sound_def)
  have "fetched_html E init"
    by (simp add: fetched_html_def init_def)
  with crawl_fetched_html [OF run]
  have f: "\<forall>u \<in> fst ` set (index st). \<exists>r. http_get E u = Some r \<and> is_html r"
    by (simp add: fetched_html_def)
  from v k g f show ?thesis
    by fastforce
qed

theorem index_keys_fetched_html_witness:
  "crawl 1 pdf_site ''https://example.com'' None init = Some pdf_final
   \<and> ''https://example.com'' \<in> visited pdf_final
   \<and> ''https://example.com'' \<notin> fst ` set (index pdf_final)
   \<and> crawl 4 ring_site ''https://example.com'' None init = Some ring_final
   \<and> ''https://example.com/b'' \<in> visited ring_final
   \<and> ''https://example.com/b'' \<in> set (gets (trace ring_final))
   \<and> ''https://example.com/gone'' \<notin> fst ` set (index ring_final)
   \<and> ''https://example.com/gone'' \<in> visited ring_final"
proof -
  have "http_get pdf_site ''https://example.com''
      = Some \<lparr>content_type = Some ''application/pdf'', body = ''%PDF''\<rparr>"
    by (simp add: pdf_site_def site_def)
  moreover have "\<not> is_html \<lparr>content_type = Some ''application/pdf'', body = ''%PDF''\<rparr>"
    by code_simp
  ultimately
  have p: "\<exists>r. http_get pdf_site ''https://example.com'' = Some r \<and> \<not> is_html r"
    by blast
  have k: "''https://example.com/b'' \<in> fst ` set (index ring_final)"
    by (simp add: ring_final_def)
  have g: "http_get ring_site ''https://example.com/gone'' = None"
    by (simp add: ring_site_def site_def)
  have v: "''https://example.com/gone'' \<in> visited ring_final"
    by (simp add: ring_final_def)
  from index_keys_fetched_html [OF pdf_run] index_keys_fetched_html [OF ring_run]
    pdf_run ring_run p k g v
  show ?thesis
    by blast
qed

subsection \<open>Relative links\<close>

text \<open>
  C1. The page of \<^verbatim>\<open>test_crawl_success\<close>, served as HTML: line 34 joins an href only
  when it has a network location, so the relative href \<^verbatim>\<open>/about\<close> is left as it is, its
  empty network location differs from that of the base, and the link is not followed.
  The run ends with the seed alone in \<open>visited\<close>, where the test expects the joined URL.
\<close>

theorem relative_link_not_followed:
  "resolve about_site ''https://example.com'' (Some ''/about'') = Dropped
   \<and> resolve about_site ''https://example.com'' (Some ''https://external.com'') = Dropped
   \<and> crawl 2 about_site ''https://example.com'' None init = Some about_final
   \<and> visited about_final = {''https://example.com''}
   \<and> ''https://example.com/about'' \<notin> visited about_final"
  by code_simp

subsection \<open>Malformed links\<close>

text \<open>
  C5. The page of \<^verbatim>\<open>test_malformed_url\<close>, served as HTML: the href with the misspelt
  scheme has the network location of the seed, so \<^verbatim>\<open>crawl\<close> is called on it; it is added
  to \<open>visited\<close> and requested, and the failure of the request is logged. The test expects
  that it is not in \<open>visited\<close>.
\<close>

theorem malformed_link_followed:
  "resolve malformed_site ''https://example.com'' (Some ''htp://example.com'')
     = Follow ''htp://example.com''
   \<and> crawl 2 malformed_site ''https://example.com'' None init = Some malformed_final
   \<and> ''htp://example.com'' \<in> visited malformed_final
   \<and> ''htp://example.com'' \<in> set (gets (trace malformed_final))
   \<and> Err ''htp://example.com'' \<in> set (trace malformed_final)"
  by code_simp

subsection \<open>A page that links to itself\<close>

lemma links_self:
  "seed \<in> visited st \<Longrightarrow>
   \<forall>h \<in> set hs. resolve E base h \<in> {Raises, Dropped, Follow seed} \<Longrightarrow>
   \<exists>st'. (\<forall>n. links (Suc n) E url base hs st = Some st')
       \<and> visited st' = visited st \<and> index st' = index st
       \<and> gets (trace st') = gets (trace st)"
proof (induction hs arbitrary: st)
  case Nil
  then show ?case by simp
next
  case (Cons h hs)
  from Cons.prems(2)
  have rest: "\<forall>h \<in> set hs. resolve E base h \<in> {Raises, Dropped, Follow seed}"
    by simp
  from Cons.prems(2) consider "resolve E base h = Raises" | "resolve E base h = Dropped"
    | "resolve E base h = Follow seed"
    by auto
  then show ?case
  proof cases
    case 1
    then show ?thesis
      by (simp add: emit_simps)
  next
    case 2
    with Cons.IH [OF Cons.prems(1) rest] show ?thesis
      by simp
  next
    case 3
    let ?st = "emit (Call seed (Some base)) st"
    have "seed \<in> visited ?st"
      using Cons.prems(1) by (simp add: emit_simps)
    from Cons.IH [OF this rest] 3 Cons.prems(1) show ?thesis
      by (simp add: emit_simps)
  qed
qed

lemma loop_run: "crawl 2 loop_site ''https://example.com'' None init = Some loop_final"
  by code_simp

text \<open>
  C6. Let the seed answer with an HTML page every anchor of which is skipped, raises,
  or leads to the seed itself. Then the run from the empty crawler returns, in one and
  the same state for every depth of recursion allowed from two on; \<open>visited\<close> is the
  seed alone, and the seed is requested once.
\<close>

theorem self_reference_terminates:
  assumes "http_get E seed = Some r" and "is_html r" and "html_parse E (body r) = Some s"
    and "\<forall>h \<in> set (anchors s). resolve E seed h \<in> {Raises, Dropped, Follow seed}"
  shows "\<exists>st. (\<forall>n. crawl (Suc (Suc n)) E seed None init = Some st)
           \<and> visited st = {seed} \<and> card (visited st) = 1 \<and> gets (trace st) = [seed]"
proof -
  let ?st = "store seed (get_text s) (enter seed None init)"
  have "seed \<in> visited ?st"
    by (simp add: state_simps)
  from links_self [OF this assms(4), of seed]
  obtain st' where run: "\<forall>n. links (Suc n) E seed seed (anchors s) ?st = Some st'"
    and v: "visited st' = visited ?st" and g: "gets (trace st') = gets (trace ?st)"
    by blast
  have "crawl (Suc (Suc n)) E seed None init = Some st'" for n
    using assms(1-3) run by (simp add: init_def base_or_def)
  moreover have "visited st' = {seed}" "gets (trace st') = [seed]"
    using v g by (simp_all add: state_simps init_def)
  ultimately show ?thesis
    by auto
qed

theorem self_reference_terminates_witness:
  "crawl 2 loop_site ''https://example.com'' None init = Some loop_final
   \<and> crawl 7 loop_site ''https://example.com'' None init = Some loop_final
   \<and> visited loop_final = {''https://example.com''}
   \<and> card (visited loop_final) = 1
   \<and> gets (trace loop_final) = [''https://example.com'']"
proof -
  have a: "http_get loop_site ''https://example.com'' = Some (html ''home'')"
    by (simp add: loop_site_def site_def)
  have b: "is_html (html ''home'')"
    by code_simp
  have c: "html_parse loop_site (body (html ''home''))
      = Some \<lparr>get_text = ''Go to Example'',
               anchors = [Some ''https://example.com'', None, Some []]\<rparr>"
    by (simp add: loop_site_def site_def html_def)
  have d: "\<forall>h \<in> set (anchors \<lparr>get_text = ''Go to Example'',
               anchors = [Some ''https://example.com'', None, Some []]\<rparr>).
        resolve loop_site ''https://example.com'' h
          \<in> {Raises, Dropped, Follow ''https://example.com''}"
    by code_simp
  from self_reference_terminates [OF a b c d]
  obtain st
    where run: "\<forall>n. crawl (Suc (Suc n)) loop_site ''https://example.com'' None init = Some st"
    and p: "visited st = {''https://example.com''}" "card (visited st) = 1"
      "gets (trace st) = [''https://example.com'']"
    by blast
  from run have "crawl (Suc (Suc 0)) loop_site ''https://example.com'' None init = Some st"
    by blast
  with loop_run have e: "st = loop_final"
    by (simp add: numeral_2_eq_2)
  from run have "crawl (Suc (Suc 5)) loop_site ''https://example.com'' None init = Some st"
    by blast
  then have "crawl 7 loop_site ''https://example.com'' None init = Some st"
    by (simp add: eval_nat_numeral)
  with p e loop_run show ?thesis
    by simp
qed

subsection \<open>Links to other hosts\<close>

lemma resolve_Follow: "resolve E base h = Follow u \<Longrightarrow> netloc E u = netloc E base"
  by (auto simp: resolve_def split: option.splits if_splits)

lemma scoped_emit: "scoped E seed (emit e st) = scoped E seed st"
  by (simp add: scoped_def state_simps)

lemma scoped_store: "scoped E seed (store u t st) = scoped E seed st"
  by (simp add: scoped_def state_simps)

lemma scoped_enter:
  "u = seed \<or> netloc E u = netloc E seed \<Longrightarrow> scoped E seed (enter u b st) = scoped E seed st"
  by (auto simp: scoped_def state_simps)

lemma crawl_scoped:
  "crawl n E u b st = Some st' \<Longrightarrow> scoped E seed st \<Longrightarrow>
   u = seed \<or> netloc E u = netloc E seed \<Longrightarrow>
   netloc E (base_or b u) = netloc E seed \<Longrightarrow> scoped E seed st'"
  and links_scoped:
  "links n E url base hs st = Some st' \<Longrightarrow> scoped E seed st \<Longrightarrow>
   netloc E base = netloc E seed \<Longrightarrow> scoped E seed st'"
proof (induction n E u b st and n E url base hs st arbitrary: st' and st'
    rule: crawl_links.induct)
  case (2 n E url base_url st)
  then show ?case
    by (auto simp: scoped_emit scoped_store scoped_enter split: if_splits option.splits)
next
  case (4 n E url base h hs st)
  show ?case
  proof (cases "resolve E base h")
    case Raises
    with 4 show ?thesis by (auto simp: scoped_emit)
  next
    case Dropped
    with 4 show ?thesis by auto
  next
    case (Follow x)
    from resolve_Follow [OF Follow] "4.prems"(3)
    have nx: "netloc E x = netloc E seed"
      by simp
    then have nb: "netloc E (base_or (Some base) x) = netloc E seed"
      using "4.prems"(3) by (simp add: base_or_def)
    from "4.prems"(1) Follow obtain st1 where c: "crawl n E x (Some base) st = Some st1"
      and l: "links n E url base hs st1 = Some st'"
      by (auto split: option.splits)
    from "4.IH"(2) [OF Follow c "4.prems"(2) _ nb] nx have "scoped E seed st1"
      by simp
    from "4.IH"(3) [OF Follow c l this "4.prems"(3)] show ?thesis .
  qed
qed simp_all

lemma based_emit:
  "based E seed (emit e st)
   = ((\<forall>v b. e = Call v b \<longrightarrow> netloc E (base_or b v) = netloc E seed) \<and> based E seed st)"
  by (auto simp: based_def state_simps)

lemma based_store: "based E seed (store u t st) = based E seed st"
  by (simp add: based_def state_simps)

lemma based_enter:
  "based E seed (enter u b st) = (netloc E (base_or b u) = netloc E seed \<and> based E seed st)"
  by (auto simp: based_def state_simps)

lemma crawl_based:
  "crawl n E u b st = Some st' \<Longrightarrow> based E seed st \<Longrightarrow>
   netloc E (base_or b u) = netloc E seed \<Longrightarrow> based E seed st'"
  and links_based:
  "links n E url base hs st = Some st' \<Longrightarrow> based E seed st \<Longrightarrow>
   netloc E base = netloc E seed \<Longrightarrow> based E seed st'"
proof (induction n E u b st and n E url base hs st arbitrary: st' and st'
    rule: crawl_links.induct)
  case (2 n E url base_url st)
  then show ?case
    by (auto simp: based_emit based_store based_enter split: if_splits option.splits)
next
  case (4 n E url base h hs st)
  show ?case
  proof (cases "resolve E base h")
    case Raises
    with 4 show ?thesis by (auto simp: based_emit)
  next
    case Dropped
    with 4 show ?thesis by auto
  next
    case (Follow x)
    from resolve_Follow [OF Follow] "4.prems"(3)
    have nx: "netloc E x = netloc E seed"
      by simp
    then have nb: "netloc E (base_or (Some base) x) = netloc E seed"
      using "4.prems"(3) by (simp add: base_or_def)
    from "4.prems"(1) Follow obtain st1 where c: "crawl n E x (Some base) st = Some st1"
      and l: "links n E url base hs st1 = Some st'"
      by (auto split: option.splits)
    from "4.IH"(2) [OF Follow c "4.prems"(2) nb] have "based E seed st1" .
    from "4.IH"(3) [OF Follow c l this "4.prems"(3)] show ?thesis .
  qed
qed simp_all

text \<open>
  C8. In a run of \<open>crawl\<close> from the empty crawler, a URL other than the seed whose network
  location is not that of the seed (or for which \<^verbatim>\<open>urlparse\<close> raises where it does not
  for the seed) is never added to \<open>visited\<close>, never requested and never a key of the index.
  No link is followed to such a URL from a base with another network location, and
  the base of every invocation has the network location of the seed.
\<close>

theorem external_never_entered:
  "crawl n E seed None init = Some st \<Longrightarrow> u \<noteq> seed \<Longrightarrow> netloc E u \<noteq> netloc E seed \<Longrightarrow>
     u \<notin> visited st \<and> u \<notin> fst ` set (index st)
   \<and> Get u \<notin> set (trace st) \<and> Add u \<notin> set (trace st)
   \<and> (\<forall>base h. netloc E u \<noteq> netloc E base \<longrightarrow> resolve E base h \<noteq> Follow u)
   \<and> (\<forall>v b. Call v b \<in> set (trace st) \<longrightarrow> netloc E (base_or b v) = netloc E seed)"
proof -
  assume run: "crawl n E seed None init = Some st" and u: "u \<noteq> seed"
    "netloc E u \<noteq> netloc E seed"
  have r: "\<forall>base h. netloc E u \<noteq> netloc E base \<longrightarrow> resolve E base h \<noteq> Follow u"
    using resolve_Follow by blast
  have "scoped E seed init"
    by (simp add: scoped_def init_def)
  from crawl_scoped [OF run this] have "scoped E seed st"
    by (simp add: base_or_def)
  with u have v: "u \<notin> visited st"
    by (auto simp: scoped_def)
  have "based E seed init"
    by (simp add: based_def init_def)
  from crawl_based [OF run this]
  have c: "\<forall>v b. Call v b \<in> set (trace st) \<longrightarrow> netloc E (base_or b v) = netloc E seed"
    by (simp add: base_or_def based_def)
  from crawl_sound [OF run sound_init] have "sound st" .
  with v have "u \<notin> fst ` set (index st)" "Get u \<notin> set (trace st)"
    "Add u \<notin> set (trace st)"
    by (auto simp: sound_def adds_iff [symmetric] gets_iff [symmetric])
  with v r c show ?thesis
    by blast
qed

theorem external_never_entered_witness:
  "crawl 4 ring_site ''https://example.com'' None init = Some ring_final
   \<and> ''https://other.org/x'' \<noteq> ''https://example.com''
   \<and> netloc ring_site ''https://other.org/x'' \<noteq> netloc ring_site ''https://example.com''
   \<and> ''https://other.org/x'' \<notin> visited ring_final
   \<and> ''https://other.org/x'' \<notin> fst ` set (index ring_final)
   \<and> Get ''https://other.org/x'' \<notin> set (trace ring_final)
   \<and> Add ''https://other.org/x'' \<notin> set (trace ring_final)
   \<and> resolve ring_site ''https://example.com'' (Some ''https://other.org/x'') = Dropped
   \<and> netloc ring_site (base_or (Some ''https://example.com'') ''https://example.com/c'')
       = netloc ring_site ''https://example.com''"
proof -
  have a: "''https://other.org/x'' \<noteq> ''https://example.com''"
    by simp
  have b: "netloc ring_site ''https://other.org/x'' \<noteq> netloc ring_site ''https://example.com''"
    by code_simp
  have d: "resolve ring_site ''https://example.com'' (Some ''https://other.org/x'') = Dropped"
    by code_simp
  have c: "Call ''https://example.com/c'' (Some ''https://example.com'')
      \<in> set (trace ring_final)"
    by (simp add: ring_final_def)
  from external_never_entered [OF ring_run a b] ring_run a b c d show ?thesis
    by blast
qed

subsection \<open>The base of the recursion\<close>

lemma extends_refl: "extends seed st st"
  by (simp add: extends_def)

lemma extends_trans:
  assumes "extends seed st st1" and "extends seed st1 st2"
  shows "extends seed st st2"
proof -
  from assms obtain t1 t2 where t: "trace st1 = t1 @ trace st" "trace st2 = t2 @ trace st1"
    and c: "\<forall>u b. Call u b \<in> set t1 \<longrightarrow> b = Some seed"
      "\<forall>u b. Call u b \<in> set t2 \<longrightarrow> b = Some seed"
    unfolding extends_def by blast
  from t have "trace st2 = (t2 @ t1) @ trace st"
    by simp
  moreover from c have "\<forall>u b. Call u b \<in> set (t2 @ t1) \<longrightarrow> b = Some seed"
    by auto
  ultimately show ?thesis
    unfolding extends_def by blast
qed

lemma extends_emit: "(\<forall>u b. e = Call u b \<longrightarrow> b = Some seed) \<Longrightarrow> extends seed st (emit e st)"
  by (auto simp: extends_def state_simps)

lemma extends_enter: "extends seed st (enter u (Some seed) st)"
  by (simp add: extends_def state_simps)

lemma extends_store: "extends seed st (store u t st)"
  by (simp add: extends_def state_simps)

lemma crawl_extends:
  "crawl n E u b st = Some st' \<Longrightarrow> seed \<noteq> [] \<Longrightarrow> b = Some seed \<Longrightarrow> extends seed st st'"
  and links_extends:
  "links n E url base hs st = Some st' \<Longrightarrow> seed \<noteq> [] \<Longrightarrow> base = seed \<Longrightarrow> extends seed st st'"
proof (induction n E u b st and n E url base hs st arbitrary: st' and st'
    rule: crawl_links.induct)
  case (2 n E url base_url st)
  have e: "extends seed st (emit ev (enter url (Some seed) st))" if "\<forall>u b. ev \<noteq> Call u b" for ev
    using that by (intro extends_trans [OF extends_enter extends_emit]) simp
  have s: "extends seed st (store url t (enter url (Some seed) st))" for t
    by (rule extends_trans [OF extends_enter extends_store])
  show ?case
  proof (cases "url \<in> visited st")
    case True
    with 2 show ?thesis by (auto intro: extends_emit)
  next
    case False
    show ?thesis
    proof (cases "http_get E url")
      case None
      with 2 False e show ?thesis by auto
    next
      case (Some r)
      show ?thesis
      proof (cases "is_html r")
        case False
        with 2 \<open>url \<notin> visited st\<close> Some e show ?thesis by auto
      next
        case True
        show ?thesis
        proof (cases "html_parse E (body r)")
          case None
          with 2 \<open>url \<notin> visited st\<close> Some True e show ?thesis by auto
        next
          case (Some p)
          from "2.prems" have b: "base_or base_url url = seed"
            by (simp add: base_or_def)
          from "2.prems"(1) \<open>url \<notin> visited st\<close> \<open>http_get E url = Some r\<close> True Some
          have l: "links n E url (base_or base_url url) (anchors p)
                     (store url (get_text p) (enter url base_url st)) = Some st'"
            by simp
          from "2.IH" [OF \<open>url \<notin> visited st\<close> \<open>http_get E url = Some r\<close> _ Some l "2.prems"(2) b] True
          have "extends seed (store url (get_text p) (enter url base_url st)) st'"
            by simp
          with s "2.prems"(3) show ?thesis
            by (auto intro: extends_trans)
        qed
      qed
    qed
  qed
next
  case (4 n E url base h hs st)
  show ?case
  proof (cases "resolve E base h")
    case Raises
    with 4 show ?thesis by (auto intro: extends_emit)
  next
    case Dropped
    with 4 show ?thesis by auto
  next
    case (Follow x)
    from "4.prems"(1) Follow obtain st1 where c: "crawl n E x (Some base) st = Some st1"
      and l: "links n E url base hs st1 = Some st'"
      by (auto split: option.splits)
    from "4.IH"(2) [OF Follow c "4.prems"(2)] "4.prems"(3) have "extends seed st st1"
      by simp
    moreover from "4.IH"(3) [OF Follow c l "4.prems"(2,3)] have "extends seed st1 st'" .
    ultimately show ?thesis
      by (rule extends_trans)
  qed
qed (simp_all add: extends_refl)



subsection \<open>The content type test\<close>

lemma of_char_html: "c \<in> set ''html'' \<Longrightarrow> (of_char c :: nat) \<in> {104, 116, 109, 108}"
  by auto

lemma lower_char_html:
  "latin1_lower_char c \<in> set ''html'' \<or> ascii_lower_char c \<in> set ''html''
       \<Longrightarrow> latin1_lower_char c = ascii_lower_char c"
proof (cases "192 \<le> (of_char c :: nat)")
  case False
  then show ?thesis
    by (simp add: latin1_lower_char_def ascii_lower_char_def)
next
  case True
  have "(of_char c :: nat) < 256"
    by simp
  assume "latin1_lower_char c \<in> set ''html'' \<or> ascii_lower_char c \<in> set ''html''"
  then have "(of_char (latin1_lower_char c) :: nat) \<in> {104, 116, 109, 108}
      \<or> (of_char (ascii_lower_char c) :: nat) \<in> {104, 116, 109, 108}"
    using of_char_html by blast
  with True \<open>(of_char c :: nat) < 256\<close> show ?thesis
    by (auto simp: latin1_lower_char_def ascii_lower_char_def Let_def split: if_splits)
qed

lemma prefix_map_agree:
  "\<forall>c. f c \<in> K \<or> g c \<in> K \<longrightarrow> f c = g c \<Longrightarrow> set k \<subseteq> K \<Longrightarrow>
   prefix k (map f s) = prefix k (map g s)"
proof (induction k arbitrary: s)
  case Nil
  then show ?case by simp
next
  case (Cons a k)
  show ?case
  proof (cases s)
    case Nil
    then show ?thesis by simp
  next
    case (Cons c cs)
    from Cons.prems have "a \<in> K" "set k \<subseteq> K"
      by simp_all
    with Cons.prems(1) have "(a = f c) = (a = g c)"
      by metis
    with Cons.IH [OF Cons.prems(1) \<open>set k \<subseteq> K\<close>, of cs] Cons show ?thesis
      by simp
  qed
qed

lemma sublist_map_agree:
  "\<forall>c. f c \<in> set k \<or> g c \<in> set k \<longrightarrow> f c = g c \<Longrightarrow>
   sublist k (map f s) = sublist k (map g s)"
proof (induction s)
  case Nil
  then show ?case by simp
next
  case (Cons c s)
  from prefix_map_agree [OF Cons.prems subset_refl, of "c # s"] Cons.IH [OF Cons.prems]
  show ?case
    by (simp add: sublist_Cons_right)
qed

lemma is_html_latin1:
  "is_html r
   = sublist ''html'' (latin1_lower (case content_type r of None \<Rightarrow> [] | Some c \<Rightarrow> c))"
  unfolding is_html_def str_in_sublist ascii_lower_def latin1_lower_def
  by (rule sym) (rule sublist_map_agree, use lower_char_html in blast)

lemma crawl_keys:
  "crawl n E u b st = Some st' \<Longrightarrow> fst ` set (index st) \<subseteq> fst ` set (index st')"
  and links_keys:
  "links n E url base hs st = Some st' \<Longrightarrow> fst ` set (index st) \<subseteq> fst ` set (index st')"
proof (induction n E u b st and n E url base hs st arbitrary: st' and st'
    rule: crawl_links.induct)
  case (2 n E url base_url st)
  show ?case
  proof (cases "\<exists>r s. url \<notin> visited st \<and> http_get E url = Some r \<and> is_html r
                 \<and> html_parse E (body r) = Some s")
    case True
    then obtain r s where h: "url \<notin> visited st" "http_get E url = Some r" "is_html r"
      "html_parse E (body r) = Some s"
      by blast
    with "2.prems" have "links n E url (base_or base_url url) (anchors s)
        (store url (get_text s) (enter url base_url st)) = Some st'"
      by simp
    from "2.IH" [OF h(1,2) _ h(4) this] h(3)
    have "fst ` set (index (store url (get_text s) (enter url base_url st)))
        \<subseteq> fst ` set (index st')"
      by simp
    then show ?thesis
      by (auto simp: state_simps AList.dom_update)
  next
    case False
    with "2.prems" have "index st' = index st"
      by (auto simp: state_simps split: if_splits option.splits)
    then show ?thesis by simp
  qed
next
  case (4 n E url base h hs st)
  show ?case
  proof (cases "resolve E base h")
    case Raises
    with 4 show ?thesis by (auto simp: state_simps)
  next
    case Dropped
    with 4 show ?thesis by simp
  next
    case (Follow x)
    from "4.prems" Follow obtain st1 where c: "crawl n E x (Some base) st = Some st1"
      and l: "links n E url base hs st1 = Some st'"
      by (auto split: option.splits)
    from "4.IH"(2) [OF Follow c] "4.IH"(3) [OF Follow c l] show ?thesis
      by blast
  qed
qed simp_all

text \<open>
  C10. Let \<open>u\<close> be a URL that is not yet visited and not a key of the index, and let its
  request return the response \<open>r\<close>. The test of line 24 succeeds (\<open>is_html\<close>) exactly when
  \<^verbatim>\<open>html\<close> is a contiguous part of the lowered value of the header, where \<^verbatim>\<open>str.lower\<close> is
  \<open>latin1_lower\<close> and an absent header counts as the empty string; so it fails when there
  is no header. When it fails, the invocation logs the warning and returns: nothing is
  parsed, the index is as before and no link is followed. When it succeeds, the body
  is parsed, the text is stored and the links are followed. If the parser does not
  raise on the body, then whatever the body is, \<open>u\<close> is a key of the index after the
  invocation exactly when the test succeeded.
\<close>

theorem html_by_content_type:
  assumes "http_get E u = Some r" and "u \<notin> visited st" and "u \<notin> fst ` set (index st)"
  shows
    "(is_html r \<longleftrightarrow>
        sublist ''html'' (latin1_lower (case content_type r of None \<Rightarrow> [] | Some c \<Rightarrow> c)))
     \<and> (content_type r = None \<longrightarrow> \<not> is_html r)
     \<and> (\<not> is_html r \<longrightarrow> crawl (Suc n) E u b st = Some (emit (Warn u) (enter u b st)))
     \<and> (is_html r \<longrightarrow>
          crawl (Suc n) E u b st =
            (case html_parse E (body r) of
               None \<Rightarrow> Some (emit (Err u) (enter u b st))
             | Some s \<Rightarrow> links n E u (base_or b u) (anchors s)
                           (store u (get_text s) (enter u b st))))
     \<and> (\<forall>st'. crawl (Suc n) E u b st = Some st' \<longrightarrow> html_parse E (body r) \<noteq> None \<longrightarrow>
          (u \<in> fst ` set (index st') \<longleftrightarrow> is_html r))"
proof (intro conjI impI allI)
  show "is_html r \<longleftrightarrow>
      sublist ''html'' (latin1_lower (case content_type r of None \<Rightarrow> [] | Some c \<Rightarrow> c))"
    by (rule is_html_latin1)
  show "\<not> is_html r" if "content_type r = None"
    using that by (simp add: is_html_def ascii_lower_def)
  show "crawl (Suc n) E u b st = Some (emit (Warn u) (enter u b st))" if "\<not> is_html r"
    using that assms by simp
  show "crawl (Suc n) E u b st =
      (case html_parse E (body r) of
         None \<Rightarrow> Some (emit (Err u) (enter u b st))
       | Some s \<Rightarrow> links n E u (base_or b u) (anchors s)
                     (store u (get_text s) (enter u b st)))" if "is_html r"
    using that assms by simp
  show "u \<in> fst ` set (index st') \<longleftrightarrow> is_html r"
    if run: "crawl (Suc n) E u b st = Some st'" and p: "html_parse E (body r) \<noteq> None" for st'
  proof (cases "is_html r")
    case False
    with run assms have "st' = emit (Warn u) (enter u b st)"
      by simp
    with assms(3) False show ?thesis
      by (simp add: state_simps)
  next
    case True
    from p obtain s where s: "html_parse E (body r) = Some s"
      by blast
    with run assms True
    have "links n E u (base_or b u) (anchors s) (store u (get_text s) (enter u b st)) = Some st'"
      by simp
    from links_keys [OF this] have "u \<in> fst ` set (index st')"
      by (auto simp: state_simps AList.dom_update)
    with True show ?thesis
      by simp
  qed
qed

theorem html_by_content_type_witness:
  "http_get pdf_site ''https://example.org'' = Some \<lparr>content_type = None, body = ''home''\<rparr>
   \<and> ''https://example.org'' \<notin> visited init
   \<and> ''https://example.org'' \<notin> fst ` set (index init)
   \<and> html_parse pdf_site ''home''
       = Some \<lparr>get_text = ''Welcome!'', anchors = [Some ''https://example.org/a'']\<rparr>
   \<and> \<not> is_html \<lparr>content_type = None, body = ''home''\<rparr>
   \<and> crawl 3 pdf_site ''https://example.org'' None init
       = Some (emit (Warn ''https://example.org'') (enter ''https://example.org'' None init))
   \<and> ''https://example.org''
       \<notin> fst ` set (index (emit (Warn ''https://example.org'')
                              (enter ''https://example.org'' None init)))
   \<and> http_get loop_site ''https://example.com'' = Some (html ''home'')
   \<and> is_html (html ''home'')
   \<and> sublist ''html'' (latin1_lower ''text/html; charset=UTF-8'')
   \<and> crawl 2 loop_site ''https://example.com'' None init = Some loop_final
   \<and> ''https://example.com'' \<in> fst ` set (index loop_final)"
proof -
  let ?r = "\<lparr>content_type = None, body = ''home''\<rparr>"
  have a: "http_get pdf_site ''https://example.org'' = Some ?r"
    by (simp add: pdf_site_def site_def)
  have b: "''https://example.org'' \<notin> visited init" "''https://example.com'' \<notin> visited init"
    by (simp_all add: init_def)
  have c: "''https://example.org'' \<notin> fst ` set (index init)"
    "''https://example.com'' \<notin> fst ` set (index init)"
    by (simp_all add: init_def)
  have p: "html_parse pdf_site ''home''
       = Some \<lparr>get_text = ''Welcome!'', anchors = [Some ''https://example.org/a'']\<rparr>"
    by (simp add: pdf_site_def site_def)
  have n: "content_type ?r = None"
    by simp
  have d: "http_get loop_site ''https://example.com'' = Some (html ''home'')"
    by (simp add: loop_site_def site_def)
  have q: "html_parse loop_site (body (html ''home'')) \<noteq> None"
    by (simp add: loop_site_def site_def html_def)
  have h: "content_type (html ''home'') = Some ''text/html; charset=UTF-8''"
    by (simp add: html_def)
  have three: "Suc 2 = (3 :: nat)" and two: "Suc 1 = (2 :: nat)"
    by simp_all
  note w1 = html_by_content_type [OF a b(1) c(1), of 2 None]
  note w2 = html_by_content_type [OF d b(2) c(2), of 1 None]
  from w1 n have nh: "\<not> is_html ?r"
    by blast
  with w1 have "crawl (Suc 2) pdf_site ''https://example.org'' None init
       = Some (emit (Warn ''https://example.org'') (enter ''https://example.org'' None init))"
    by blast
  then have r1: "crawl 3 pdf_site ''https://example.org'' None init
       = Some (emit (Warn ''https://example.org'') (enter ''https://example.org'' None init))"
    unfolding three .
  have "html_parse pdf_site (body ?r) \<noteq> None"
    using p by simp
  with w1 r1 [folded three] nh have k1: "''https://example.org''
       \<notin> fst ` set (index (emit (Warn ''https://example.org'')
                              (enter ''https://example.org'' None init)))"
    by blast
  have ih: "is_html (html ''home'')"
    by code_simp
  with w2 have "sublist ''html''
      (latin1_lower (case content_type (html ''home'') of None \<Rightarrow> [] | Some c \<Rightarrow> c))"
    by blast
  then have sl: "sublist ''html'' (latin1_lower ''text/html; charset=UTF-8'')"
    by (simp only: h option.case)
  from w2 loop_run [folded two] q ih
  have k2: "''https://example.com'' \<in> fst ` set (index loop_final)"
    by blast
  from a b(1) c(1) p nh r1 k1 d ih sl loop_run k2 show ?thesis
    by blast
qed

subsection \<open>Exceptions\<close>

text \<open>
  C7, as amended. Let \<open>u\<close> be a URL that is not yet visited and whose request raises, or
  whose response is HTML and makes the parser raise. Then the invocation of \<open>crawl\<close> on
  \<open>u\<close> returns, with the error logged and nothing else done: the index is as before and
  \<open>u\<close> has been requested once. After whatever the run does next, another invocation on
  \<open>u\<close> returns at once, without a request. The loop of a page that has a link to \<open>u\<close>
  goes on with the links after it. An exception raised while a link is resolved (by
  \<^verbatim>\<open>urlparse\<close> or \<^verbatim>\<open>urljoin\<close>) is another matter: it is caught in the invocation of the
  page that has the link, and the links after it are left out.
\<close>

theorem exception_confined:
  assumes "u \<notin> visited st"
    and "http_get E u = None
         \<or> (\<exists>r. http_get E u = Some r \<and> is_html r \<and> html_parse E (body r) = None)"
  shows
    "crawl (Suc n) E u b st = Some (emit (Err u) (enter u b st))
     \<and> index (emit (Err u) (enter u b st)) = index st
     \<and> gets (trace (emit (Err u) (enter u b st))) = u # gets (trace st)
     \<and> (\<forall>k v c st'. crawl k E v c (emit (Err u) (enter u b st)) = Some st' \<longrightarrow>
          (\<forall>m b'. crawl (Suc m) E u b' st' = Some (emit (Call u b') st')))
     \<and> (\<forall>url base h hs. resolve E base h = Follow u \<longrightarrow>
          links (Suc n) E url base (h # hs) st
            = links (Suc n) E url base hs (emit (Err u) (enter u (Some base) st)))
     \<and> (\<forall>k url base h hs st'. resolve E base h = Raises \<longrightarrow>
          links k E url base (h # hs) st' = Some (emit (Err url) st'))"
proof (intro conjI allI impI)
  show run: "crawl (Suc n) E u b st = Some (emit (Err u) (enter u b st))" for n b
    using assms by auto
  show "index (emit (Err u) (enter u b st)) = index st"
    by (simp add: state_simps)
  show "gets (trace (emit (Err u) (enter u b st))) = u # gets (trace st)"
    by (simp add: state_simps)
  show "crawl (Suc m) E u b' st' = Some (emit (Call u b') st')"
    if "crawl k E v c (emit (Err u) (enter u b st)) = Some st'" for k v c st' m b'
  proof -
    from crawl_visited [OF that] have "u \<in> visited st'"
      by (auto simp: state_simps)
    then show ?thesis
      by simp
  qed
  show "links (Suc n) E url base (h # hs) st
      = links (Suc n) E url base hs (emit (Err u) (enter u (Some base) st))"
    if "resolve E base h = Follow u" for url base h hs
    using that run [of n "Some base"] by simp
  show "links k E url base (h # hs) st' = Some (emit (Err url) st')"
    if "resolve E base h = Raises" for k url base h hs st'
    using that by simp
qed

theorem exception_confined_witness:
  "''https://example.com/gone'' \<notin> visited init
   \<and> http_get ring_site ''https://example.com/gone'' = None
   \<and> crawl 1 ring_site ''https://example.com/gone'' (Some ''https://example.com'') init
       = Some (emit (Err ''https://example.com/gone'')
                 (enter ''https://example.com/gone'' (Some ''https://example.com'') init))
   \<and> index (emit (Err ''https://example.com/gone'')
               (enter ''https://example.com/gone'' (Some ''https://example.com'') init)) = []
   \<and> resolve ring_site ''https://example.com'' (Some ''https://example.com/gone'')
       = Follow ''https://example.com/gone''
   \<and> links 1 ring_site ''https://example.com/b'' ''https://example.com''
         [Some ''https://example.com/gone'', Some ''https://example.com/c''] init
       = links 1 ring_site ''https://example.com/b'' ''https://example.com''
           [Some ''https://example.com/c'']
           (emit (Err ''https://example.com/gone'')
              (enter ''https://example.com/gone'' (Some ''https://example.com'') init))
   \<and> ''https://example.com'' \<notin> visited init
   \<and> http_get deaf_site ''https://example.com'' = Some (html ''home'')
   \<and> is_html (html ''home'')
   \<and> html_parse deaf_site (body (html ''home'')) = None
   \<and> crawl 1 deaf_site ''https://example.com'' None init
       = Some (emit (Err ''https://example.com'') (enter ''https://example.com'' None init))
   \<and> http_get bracket_site ''https://example.com/gone'' = None
   \<and> resolve bracket_site ''https://example.com'' (Some ''http://[example.com/x'') = Raises
   \<and> links 1 bracket_site ''https://example.com'' ''https://example.com''
         [Some ''http://[example.com/x'', Some ''https://example.com/next''] init
       = Some (emit (Err ''https://example.com'') init)"
proof -
  have a: "''https://example.com/gone'' \<notin> visited init" "''https://example.com'' \<notin> visited init"
    by (simp_all add: init_def)
  have g: "http_get ring_site ''https://example.com/gone'' = None"
    by (simp add: ring_site_def site_def)
  have r: "resolve ring_site ''https://example.com'' (Some ''https://example.com/gone'')
       = Follow ''https://example.com/gone''"
    by code_simp
  have d: "http_get deaf_site ''https://example.com'' = Some (html ''home'')"
    by (simp add: deaf_site_def ring_site_def site_def)
  have h: "is_html (html ''home'')"
    by code_simp
  have p: "html_parse deaf_site (body (html ''home'')) = None"
    by (simp add: deaf_site_def)
  from d h p have e: "http_get deaf_site ''https://example.com'' = None
      \<or> (\<exists>r. http_get deaf_site ''https://example.com'' = Some r \<and> is_html r
              \<and> html_parse deaf_site (body r) = None)"
    by blast
  have one: "Suc 0 = 1"
    by simp
  note w1 = exception_confined [OF a(1) disjI1 [OF g], of 0 "Some ''https://example.com''"]
  note w2 = exception_confined [OF a(2) e, of 0 None]
  from w1 have "index (emit (Err ''https://example.com/gone'')
               (enter ''https://example.com/gone'' (Some ''https://example.com'') init))
       = index init"
    by blast
  then have i: "index (emit (Err ''https://example.com/gone'')
               (enter ''https://example.com/gone'' (Some ''https://example.com'') init)) = []"
    by (simp add: init_def)
  from w1 r have l: "links (Suc 0) ring_site ''https://example.com/b'' ''https://example.com''
         [Some ''https://example.com/gone'', Some ''https://example.com/c''] init
       = links (Suc 0) ring_site ''https://example.com/b'' ''https://example.com''
           [Some ''https://example.com/c'']
           (emit (Err ''https://example.com/gone'')
              (enter ''https://example.com/gone'' (Some ''https://example.com'') init))"
    by blast
  from w1 have c1: "crawl (Suc 0) ring_site ''https://example.com/gone''
        (Some ''https://example.com'') init
       = Some (emit (Err ''https://example.com/gone'')
                 (enter ''https://example.com/gone'' (Some ''https://example.com'') init))"
    by blast
  from w2 have c2: "crawl (Suc 0) deaf_site ''https://example.com'' None init
       = Some (emit (Err ''https://example.com'') (enter ''https://example.com'' None init))"
    by blast
  have g3: "http_get bracket_site ''https://example.com/gone'' = None"
    by (simp add: bracket_site_def site_def)
  have r3: "resolve bracket_site ''https://example.com'' (Some ''http://[example.com/x'')
      = Raises"
    by code_simp
  note w3 = exception_confined [OF a(1) disjI1 [OF g3], of 0 None]
  from w3 r3 have l3: "links 1 bracket_site ''https://example.com'' ''https://example.com''
         [Some ''http://[example.com/x'', Some ''https://example.com/next''] init
       = Some (emit (Err ''https://example.com'') init)"
    by blast
  from a g c1 [unfolded one] i r l [unfolded one] d h p c2 [unfolded one] g3 r3 l3
  show ?thesis
    by blast
qed

text \<open>
  C7 as it is stated fails: on the seed page of \<open>bracket_site\<close> \<^verbatim>\<open>urlparse\<close> raises
  at the first link, the exception ends the loop of the seed, and the run returns, at
  any depth allowed, with the second link, which is in scope and whose page answers,
  not visited.
\<close>

theorem link_exception_ends_run:
  "resolve bracket_site ''https://example.com'' (Some ''http://[example.com/x'') = Raises
   \<and> resolve bracket_site ''https://example.com'' (Some ''https://example.com/next'')
       = Follow ''https://example.com/next''
   \<and> http_get bracket_site ''https://example.com/next'' = Some (html ''next'')
   \<and> crawl 2 bracket_site ''https://example.com'' None init = Some bracket_final
   \<and> crawl 9 bracket_site ''https://example.com'' None init = Some bracket_final
   \<and> ''https://example.com/next'' \<notin> visited bracket_final
   \<and> Err ''https://example.com'' \<in> set (trace bracket_final)"
  by code_simp

end
